theory Spec2Isabelle
  imports Main "HOL-Library.Word"
begin

unbundle bit_operations_syntax

section \<open>Event\<close>

text \<open>
  \<^verbatim>\<open>class Event\<close> of State.h: one private field \<^verbatim>\<open>uint32_t _sig\<close>, set by the
  constructor, read by \<^verbatim>\<open>getSig\<close>, replaced by \<^verbatim>\<open>setSig\<close>.
\<close>

datatype Event = Event (getSig: "32 word")

definition setSig :: "Event \<Rightarrow> 32 word \<Rightarrow> Event" where
  "setSig e sig = Event sig"

section \<open>References, user code and the call log\<close>

text \<open>
  A \<^verbatim>\<open>State*\<close> is an address; the null pointer is \<open>None\<close> of \<open>ref option\<close>. A pointer to
  member function \<^verbatim>\<open>State* (State::*)(Event*)\<close> is a name that the program resolves.
\<close>

type_synonym ref = nat
type_synonym mptr = nat

text \<open>
  The log records, in the order of the calls, every call of user code (\<^verbatim>\<open>entry()\<close>,
  \<^verbatim>\<open>exit()\<close>, a bound transition method) and every event that the consumer loop of
  \<^verbatim>\<open>dispatchEvents\<close> hands to the active state. It is observation only: no function reads it.
\<close>

datatype call = Entry ref | Exit ref | Handler ref mptr Event | Dispatch ref Event

text \<open>
  What user code works on: the external interface object (\<^verbatim>\<open>void* _xif\<close>, shared by the
  states of one machine), together with the log.
\<close>

record 'x Ctx =
  xif :: 'x
  calls :: "call list"

definition log_call :: "call \<Rightarrow> 'x Ctx \<Rightarrow> 'x Ctx" where
  "log_call k c = c\<lparr>calls := calls c @ [k]\<rparr>"

text \<open>
  The code of the derived classes: the pure virtual \<^verbatim>\<open>entry()\<close> and \<^verbatim>\<open>exit()\<close> of the
  object at an address, and the member functions that handlers bind. User code reads and
  writes the external interface object and yields the next state (\<^verbatim>\<open>DONE()\<close> is \<open>None\<close>,
  \<^verbatim>\<open>TRAN(s)\<close> is \<open>Some s\<close>); it does not touch the lists of the machine.
\<close>

record 'x Prog =
  v_entry :: "ref \<Rightarrow> 'x \<Rightarrow> ref option \<times> 'x"
  v_exit :: "ref \<Rightarrow> 'x \<Rightarrow> 'x"
  v_member :: "mptr \<Rightarrow> ref \<Rightarrow> Event \<Rightarrow> 'x \<Rightarrow> ref option \<times> 'x"

definition entry :: "'x Prog \<Rightarrow> ref \<Rightarrow> 'x Ctx \<Rightarrow> ref option \<times> 'x Ctx" where
  "entry P s c =
     (fst (v_entry P s (xif c)),
      log_call (Entry s) (c\<lparr>xif := snd (v_entry P s (xif c))\<rparr>))"

definition exit :: "'x Prog \<Rightarrow> ref \<Rightarrow> 'x Ctx \<Rightarrow> 'x Ctx" where
  "exit P s c = log_call (Exit s) (c\<lparr>xif := v_exit P s (xif c)\<rparr>)"

section \<open>The container\<close>

text \<open>
  Modelled from the spec: List.h (the class \<^verbatim>\<open>List\<close>) is not among the sources. The spec
  describes it as an ordered, iterable, append-only collection with removal by identity;
  \<^verbatim>\<open>addItem\<close> appends at the end.
\<close>

definition addItem :: "'a list \<Rightarrow> 'a \<Rightarrow> 'a list" where
  "addItem xs x = xs @ [x]"

text \<open>
  Modelled from the spec: \<^verbatim>\<open>getFirstItem\<close> of the missing List.h peeks the head of the
  collection and yields null when the collection is empty.
\<close>

definition getFirstItem :: "'a list \<Rightarrow> 'a option" where
  "getFirstItem xs = (case xs of [] \<Rightarrow> None | x # _ \<Rightarrow> Some x)"

text \<open>
  Modelled from the spec: \<^verbatim>\<open>removeItem\<close> of the missing List.h removes the given item (the
  first place that holds it) and keeps the order of the others. The queue holds
  \<^verbatim>\<open>Event*\<close> and the list compares pointers; here events are values, which makes no
  difference to \<^verbatim>\<open>dispatchEvents\<close>, since the item it removes is always the head.
\<close>

definition removeItem :: "'a list \<Rightarrow> 'a \<Rightarrow> 'a list" where
  "removeItem xs x = remove1 x xs"

section \<open>EventHandler\<close>

text \<open>
  \<^verbatim>\<open>EventHandler<S>\<close>: the mask \<^verbatim>\<open>_sig\<close> and the function pointer object \<^verbatim>\<open>_handler\<close>,
  here the pair of target object and member function that \<^verbatim>\<open>_handler->attach(obj, member)\<close>
  stores; \<open>None\<close> is the pointer object as the constructor leaves it, with nothing bound.
\<close>

record EventHandler =
  h_sig :: "32 word"
  h_handler :: "(ref \<times> mptr) option"

definition EventHandler_new :: EventHandler where
  "EventHandler_new = \<lparr>h_sig = 0, h_handler = None\<rparr>"

definition EventHandler_attach :: "EventHandler \<Rightarrow> 32 word \<Rightarrow> ref \<Rightarrow> mptr \<Rightarrow> EventHandler" where
  "EventHandler_attach evh signal obj member = evh\<lparr>h_sig := signal, h_handler := Some (obj, member)\<rparr>"

definition match :: "EventHandler \<Rightarrow> Event \<Rightarrow> bool" where
  "match evh e = (if (getSig e AND h_sig evh) \<noteq> 0 then True else False)"

text \<open>
  Modelled from the spec: FunctionPointer.h (\<^verbatim>\<open>mbed::FunctionPointerArg1\<close>) is not among
  the sources. The spec describes \<^verbatim>\<open>dispatch(event)\<close> of a handler as invoking the bound
  transition, which returns no result or the next state; so \<^verbatim>\<open>_handler->call(e)\<close> is the
  call of the bound member function on the bound object, and yields null when nothing
  is bound.
\<close>

definition EventHandler_dispatch ::
  "'x Prog \<Rightarrow> EventHandler \<Rightarrow> Event \<Rightarrow> 'x Ctx \<Rightarrow> ref option \<times> 'x Ctx" where
  "EventHandler_dispatch P evh e c =
     (case h_handler evh of
        None \<Rightarrow> (None, c)
      | Some (obj, member) \<Rightarrow>
          (fst (v_member P member obj e (xif c)),
           log_call (Handler obj member e) (c\<lparr>xif := snd (v_member P member obj e (xif c))\<rparr>)))"

section \<open>State\<close>

text \<open>
  The fields of \<^verbatim>\<open>class State\<close> that dispatch reads: \<^verbatim>\<open>_parent\<close> and \<^verbatim>\<open>_handlers\<close>. The
  objects live in a heap indexed by address; a non-null \<^verbatim>\<open>State*\<close> always points to a
  live object (states are never destroyed).
\<close>

record State =
  s_parent :: "ref option"
  s_handlers :: "EventHandler list"

type_synonym heap = "ref \<Rightarrow> State"

definition State_new :: "ref option \<Rightarrow> State" where
  "State_new parent = \<lparr>s_parent = parent, s_handlers = []\<rparr>"

text \<open>\<^verbatim>\<open>State::attach\<close>, on the state at address \<open>s\<close> of the heap.\<close>

definition attach :: "heap \<Rightarrow> ref \<Rightarrow> 32 word \<Rightarrow> ref \<Rightarrow> mptr \<Rightarrow> heap" where
  "attach h s signal tptr mptr =
     h(s := (h s)\<lparr>s_handlers :=
        addItem (s_handlers (h s)) (EventHandler_attach EventHandler_new signal tptr mptr)\<rparr>)"

text \<open>
  The handler search of \<^verbatim>\<open>State::dispatch\<close>:
  \<^verbatim>\<open>handler = getFirstHandler(); while(handler){ if(!handler->match(e)){ handler =
  getNextHandler(); continue; } ... return next; }\<close>. The argument is what the iteration
  still has to visit; the result is the handler the loop stops at, \<open>None\<close> when the loop
  runs off the end.
\<close>

fun handler_loop :: "EventHandler list \<Rightarrow> Event \<Rightarrow> EventHandler option" where
  "handler_loop [] e = None"
| "handler_loop (handler # rest) e =
     (if \<not> match handler e then handler_loop rest e else Some handler)"

text \<open>
  The loop \<^verbatim>\<open>while(next && next != st){ st->exit(); st = next; next = st->entry(); }\<close>.
  It stands twice in State.h with the same text: in \<^verbatim>\<open>State::dispatch\<close> on the local
  \<^verbatim>\<open>st\<close>, and in \<^verbatim>\<open>Hsm::dispatchEvents\<close> on the field \<^verbatim>\<open>_state\<close>. The result is the
  value of \<^verbatim>\<open>st\<close> when the loop ends; \<open>None\<close> is a loop that never ends.
\<close>

partial_function (option) settle ::
  "'x Prog \<Rightarrow> ref \<Rightarrow> ref option \<Rightarrow> 'x Ctx \<Rightarrow> (ref \<times> 'x Ctx) option" where
  "settle P st next c =
     (case next of
        None \<Rightarrow> Some (st, c)
      | Some n \<Rightarrow>
          if n \<noteq> st
          then settle P n (fst (entry P n (exit P st c))) (snd (entry P n (exit P st c)))
          else Some (st, c))"

text \<open>
  \<^verbatim>\<open>State::dispatch\<close>. The event pointer is \<open>None\<close> for the null "no event" argument.
  The result is the returned \<^verbatim>\<open>State*\<close> with the context after the call; \<open>None\<close> is a
  call that never returns (the settling loop, or the recursion through a cyclic parent
  chain).
\<close>

partial_function (option) dispatch ::
  "'x Prog \<Rightarrow> heap \<Rightarrow> ref \<Rightarrow> Event option \<Rightarrow> 'x Ctx \<Rightarrow> (ref option \<times> 'x Ctx) option" where
  "dispatch P h this e c =
     (case e of
        None \<Rightarrow>
          map_option (\<lambda>r. (Some (fst r), snd r))
            (settle P this (fst (entry P this c)) (snd (entry P this c)))
      | Some ev \<Rightarrow>
          (case handler_loop (s_handlers (h this)) ev of
             Some handler \<Rightarrow> Some (EventHandler_dispatch P handler ev c)
           | None \<Rightarrow>
               (case s_parent (h this) of
                  Some parent \<Rightarrow> dispatch P h parent e c
                | None \<Rightarrow> Some (None, c))))"

section \<open>Hsm\<close>

text \<open>
  \<^verbatim>\<open>class Hsm : public State\<close>. The State part of the machine lives in the heap at the
  address \<open>this\<close>, like every other state; the record holds the heap, the context of the
  user code, and the three fields \<^verbatim>\<open>_states\<close>, \<^verbatim>\<open>_events\<close>, \<^verbatim>\<open>_state\<close>. The mutex
  serialises producers and the consumer; one thread of control is modelled, so locking and
  unlocking change nothing.
\<close>

record 'x Hsm =
  heap :: heap
  ctx :: "'x Ctx"
  this :: ref
  hsm_states :: "ref list"
  hsm_events :: "Event list"
  hsm_state :: ref

definition Hsm_new :: "heap \<Rightarrow> 'x Ctx \<Rightarrow> ref \<Rightarrow> ref option \<Rightarrow> 'x Hsm" where
  "Hsm_new h c addr parent =
     \<lparr>heap = h(addr := State_new parent), ctx = c, this = addr,
      hsm_states = [], hsm_events = [], hsm_state = addr\<rparr>"

definition attachState :: "'x Hsm \<Rightarrow> ref \<Rightarrow> 'x Hsm" where
  "attachState m st = m\<lparr>hsm_states := addItem (hsm_states m) st\<rparr>"

definition raiseEvent :: "'x Hsm \<Rightarrow> Event \<Rightarrow> 'x Hsm" where
  "raiseEvent m e = m\<lparr>hsm_events := addItem (hsm_events m) e\<rparr>"

definition init :: "'x Prog \<Rightarrow> 'x Hsm \<Rightarrow> (ref \<times> 'x Hsm) option" where
  "init P m =
     (case dispatch P (heap m) (this m) None (ctx m) of
        None \<Rightarrow> None
      | Some (next, c) \<Rightarrow>
          Some (case next of Some n \<Rightarrow> n | None \<Rightarrow> this m,
                m\<lparr>ctx := c, hsm_state := (case next of Some n \<Rightarrow> n | None \<Rightarrow> this m)\<rparr>))"

text \<open>
  One round of the \<^verbatim>\<open>while(ev)\<close> loop of \<^verbatim>\<open>Hsm::dispatchEvents\<close>, for the event \<open>ev\<close>
  taken from the head: dispatch against \<^verbatim>\<open>_state\<close>, settle, remove the event.
\<close>

definition dispatchEvents_round :: "'x Prog \<Rightarrow> 'x Hsm \<Rightarrow> Event \<Rightarrow> 'x Hsm option" where
  "dispatchEvents_round P m ev =
     Option.bind (dispatch P (heap m) (hsm_state m) (Some ev) (log_call (Dispatch (hsm_state m) ev) (ctx m)))
       (\<lambda>d. Option.bind (settle P (hsm_state m) (fst d) (snd d))
          (\<lambda>r. Some (m\<lparr>ctx := snd r, hsm_state := fst r,
                       hsm_events := removeItem (hsm_events m) ev\<rparr>)))"

partial_function (option) dispatchEvents :: "'x Prog \<Rightarrow> 'x Hsm \<Rightarrow> (ref \<times> 'x Hsm) option" where
  "dispatchEvents P m =
     (case getFirstItem (hsm_events m) of
        None \<Rightarrow> Some (hsm_state m, m)
      | Some ev \<Rightarrow> Option.bind (dispatchEvents_round P m ev) (dispatchEvents P))"

section \<open>The properties, in the words of the specification\<close>

text \<open>
  Entry processing as the specification words it: with the next state that the last
  \<^verbatim>\<open>entry()\<close> returned pending, the chain stops at the current state when there is no
  result or the result is the current state itself; otherwise the current state is
  exited, the next one becomes current and is entered, and the chain goes on from there.
  \<open>settles P cur nx c fin c'\<close>: from the current state \<open>cur\<close> with \<open>nx\<close> pending in context
  \<open>c\<close>, the chain stops at the state \<open>fin\<close> in context \<open>c'\<close>.
\<close>

inductive settles :: "'x Prog \<Rightarrow> ref \<Rightarrow> ref option \<Rightarrow> 'x Ctx \<Rightarrow> ref \<Rightarrow> 'x Ctx \<Rightarrow> bool"
  for P :: "'x Prog" where
  stop_none: "settles P cur None c cur c"
| stop_self: "settles P cur (Some cur) c cur c"
| advance: "nxt \<noteq> cur \<Longrightarrow>
     settles P nxt (fst (entry P nxt (exit P cur c))) (snd (entry P nxt (exit P cur c))) fin c' \<Longrightarrow>
     settles P cur (Some nxt) c fin c'"

text \<open>
  The chain of entry-triggered transitions, followed for at most \<open>k\<close> transitions: the
  current state, the pending result of its \<^verbatim>\<open>entry()\<close>, and the context. The chain has
  settled when nothing is pending or the pending state is the current one.
\<close>

fun chain_after :: "'x Prog \<Rightarrow> nat \<Rightarrow> ref \<Rightarrow> ref option \<Rightarrow> 'x Ctx \<Rightarrow> ref \<times> ref option \<times> 'x Ctx" where
  "chain_after P 0 st nx c = (st, nx, c)"
| "chain_after P (Suc k) st nx c =
     (case nx of
        None \<Rightarrow> (st, nx, c)
      | Some n \<Rightarrow>
          if n \<noteq> st
          then chain_after P k n (fst (entry P n (exit P st c))) (snd (entry P n (exit P st c)))
          else (st, nx, c))"

definition settled :: "ref \<times> ref option \<times> 'x Ctx \<Rightarrow> bool" where
  "settled k = (fst (snd k) = None \<or> fst (snd k) = Some (fst k))"

text \<open>
  The ancestor chain of a state: the state itself, its parent, the parent of its parent,
  and so on. \<open>rooted h n s\<close>: the chain of \<open>s\<close> ends, after at most \<open>n\<close> steps, in a state
  without parent. A cyclic chain is rooted for no \<open>n\<close>.
\<close>

inductive ancestor :: "heap \<Rightarrow> ref \<Rightarrow> ref \<Rightarrow> bool" for h :: heap where
  anc_self: "ancestor h s s"
| anc_parent: "s_parent (h s) = Some p \<Longrightarrow> ancestor h p t \<Longrightarrow> ancestor h s t"

fun rooted :: "heap \<Rightarrow> nat \<Rightarrow> ref \<Rightarrow> bool" where
  "rooted h 0 s = (s_parent (h s) = None)"
| "rooted h (Suc n) s = (case s_parent (h s) of None \<Rightarrow> True | Some p \<Rightarrow> rooted h n p)"

fun chain :: "heap \<Rightarrow> nat \<Rightarrow> ref \<Rightarrow> ref list" where
  "chain h 0 s = [s]"
| "chain h (Suc n) s = s # (case s_parent (h s) of None \<Rightarrow> [] | Some p \<Rightarrow> chain h n p)"

text \<open>
  An event that no handler of a state or of any of its ancestors matches.
\<close>

definition unhandled :: "heap \<Rightarrow> ref \<Rightarrow> Event \<Rightarrow> bool" where
  "unhandled h s e = (\<forall>t. ancestor h s t \<longrightarrow> (\<forall>x\<in>set (s_handlers (h t)). \<not> match x e))"

text \<open>
  Delegation as the specification words it: the event is handled by the first handler, in
  registration order, of the nearest state on the way from the state up through its
  parents that has a matching handler, and the result is what that handler returns; an
  event that reaches a state without parent and without matching handler is dropped with
  no result. The way goes through parents only, never through any other state.
  \<open>delegated P h s e c r\<close>: dispatching \<open>e\<close> from \<open>s\<close> in context \<open>c\<close> yields \<open>r\<close>.
\<close>

inductive delegated ::
  "'x Prog \<Rightarrow> heap \<Rightarrow> ref \<Rightarrow> Event \<Rightarrow> 'x Ctx \<Rightarrow> ref option \<times> 'x Ctx \<Rightarrow> bool"
  for P :: "'x Prog" and h :: heap where
  d_handled: "s_handlers (h s) = pre @ h0 # post \<Longrightarrow> \<forall>x\<in>set pre. \<not> match x e \<Longrightarrow> match h0 e \<Longrightarrow>
     delegated P h s e c (EventHandler_dispatch P h0 e c)"
| d_parent: "\<forall>x\<in>set (s_handlers (h s)). \<not> match x e \<Longrightarrow> s_parent (h s) = Some p \<Longrightarrow>
     delegated P h p e c r \<Longrightarrow> delegated P h s e c r"
| d_dropped: "\<forall>x\<in>set (s_handlers (h s)). \<not> match x e \<Longrightarrow> s_parent (h s) = None \<Longrightarrow>
     delegated P h s e c (None, c)"

text \<open>
  The events of a list dispatched one after the other, in the order of the list, each
  against the state that is active when its turn comes.
\<close>

fun in_order :: "'x Prog \<Rightarrow> Event list \<Rightarrow> 'x Hsm \<Rightarrow> (ref \<times> 'x Hsm) option" where
  "in_order P [] m = Some (hsm_state m, m)"
| "in_order P (e # es) m = Option.bind (dispatchEvents_round P m e) (in_order P es)"

text \<open>The events that the log shows as handed to the active state, oldest first.\<close>

fun dispatched :: "call list \<Rightarrow> Event list" where
  "dispatched [] = []"
| "dispatched (Dispatch s e # ks) = e # dispatched ks"
| "dispatched (Entry s # ks) = dispatched ks"
| "dispatched (Exit s # ks) = dispatched ks"
| "dispatched (Handler obj mp e # ks) = dispatched ks"

text \<open>
  The states that user code can name as the target of a transition: what some
  \<^verbatim>\<open>entry()\<close> or some bound transition method returns.
\<close>

definition targets :: "'x Prog \<Rightarrow> ref set" where
  "targets P =
     {t. \<exists>s x. fst (v_entry P s x) = Some t} \<union>
     {t. \<exists>mp obj e x. fst (v_member P mp obj e x) = Some t}"

text \<open>
  The configurations a machine can be in: after construction, and after any sequence of
  \<^verbatim>\<open>init\<close>, \<^verbatim>\<open>attachState\<close>, \<^verbatim>\<open>raiseEvent\<close>, \<^verbatim>\<open>dispatchEvents\<close> and of
  \<^verbatim>\<open>State::attach\<close> on a state of the heap.
\<close>

inductive reachable :: "'x Prog \<Rightarrow> 'x Hsm \<Rightarrow> bool" for P :: "'x Prog" where
  r_new: "reachable P (Hsm_new h c addr parent)"
| r_init: "reachable P m \<Longrightarrow> init P m = Some (r, m') \<Longrightarrow> reachable P m'"
| r_attachState: "reachable P m \<Longrightarrow> reachable P (attachState m st)"
| r_raiseEvent: "reachable P m \<Longrightarrow> reachable P (raiseEvent m e)"
| r_dispatchEvents: "reachable P m \<Longrightarrow> dispatchEvents P m = Some (r, m') \<Longrightarrow> reachable P m'"
| r_attach: "reachable P m \<Longrightarrow> reachable P (m\<lparr>heap := attach (heap m) s signal tptr mp\<rparr>)"

section \<open>A test machine\<close>

text \<open>
  The machine of the specification's end-to-end scenario, under a composite state: the
  Hsm at address 0, the composite state 1 (parent 0), Idle at 2 and Active at 3 (parent
  1). Entering the Hsm leads to 1, entering 1 leads to Idle: a three-level entry chain.
  Idle handles the signal 1 (start) by the method 0, which goes to Active; Active handles
  the signal 2 (stop) by the method 1, which goes to Idle. The external interface object
  is a counter of the \<^verbatim>\<open>entry()\<close> calls.
\<close>

definition ex_prog :: "nat Prog" where
  "ex_prog =
     \<lparr>v_entry = (\<lambda>s x. (if s = 0 then Some 1 else if s = 1 then Some 2 else None, x + 1)),
      v_exit = (\<lambda>s x. x),
      v_member = (\<lambda>mp obj e x. (if mp = 0 then Some 3 else if mp = 1 then Some 2 else None, x))\<rparr>"

definition ex_heap :: heap where
  "ex_heap =
     attach (attach
       ((\<lambda>a. State_new None)(1 := State_new (Some 0), 2 := State_new (Some 1), 3 := State_new (Some 1)))
       2 1 2 0) 3 2 3 1"

definition ex_ctx :: "nat Ctx" where
  "ex_ctx = \<lparr>xif = 0, calls = []\<rparr>"

definition ex_hsm :: "nat Hsm" where
  "ex_hsm =
     attachState (attachState (attachState (Hsm_new ex_heap ex_ctx 0 None) 1) 2) 3"

text \<open>The test machine after \<^verbatim>\<open>init()\<close>: settled on Idle, three states entered.\<close>

definition ex_idle :: "nat Hsm" where
  "ex_idle =
     ex_hsm\<lparr>ctx := \<lparr>xif = 3, calls = [Entry 0, Exit 0, Entry 1, Exit 1, Entry 2]\<rparr>, hsm_state := 2\<rparr>"

text \<open>
  The test machine initialised with none of its states attached: what \<^verbatim>\<open>init()\<close> leaves
  when it is called right after the constructor.
\<close>

definition ex_unattached :: "nat Hsm" where
  "ex_unattached =
     (Hsm_new ex_heap ex_ctx 0 None)
       \<lparr>ctx := \<lparr>xif = 3, calls = [Entry 0, Exit 0, Entry 1, Exit 1, Entry 2]\<rparr>, hsm_state := 2\<rparr>"

text \<open>
  The heap of the test machine with two more handlers: the composite state 1 handles the
  signal 8 by the method 0, and the Hsm at 0 handles the signal 16 by the method 1.
\<close>

definition ex_heap_up :: heap where
  "ex_heap_up = attach (attach ex_heap 1 8 1 0) 0 16 0 1"

text \<open>
  A heap in which every state is its own parent and has no handler: the shortest cyclic
  parent chain.
\<close>

definition loop_heap :: heap where
  "loop_heap = (\<lambda>a. State_new (Some a))"

text \<open>Two states whose \<^verbatim>\<open>entry()\<close> name each other: a chain that never settles.\<close>

definition pingpong :: "nat Prog" where
  "pingpong =
     \<lparr>v_entry = (\<lambda>s x. (if s = 0 then Some 1 else Some 0, x)),
      v_exit = (\<lambda>s x. x),
      v_member = (\<lambda>mp obj e x. (None, x))\<rparr>"

section \<open>Matching\<close>

lemma word_nonzero_bit: "((x::32 word) \<noteq> 0) = (\<exists>n. bit x n)"
proof
  assume "x \<noteq> 0"
  then show "\<exists>n. bit x n" by (auto simp: bit_eq_iff)
next
  assume "\<exists>n. bit x n"
  then show "x \<noteq> 0" by auto
qed

text \<open>
  C3. For every handler with mask \<open>M\<close> and every event \<open>e\<close>, \<^verbatim>\<open>match(e)\<close> is true exactly
  when the bitwise AND of the signal of \<open>e\<close> and \<open>M\<close> is not zero; that is, exactly when
  the signal and the mask share at least one bit. Matching is intersection, not equality.
\<close>

theorem match_is_intersection:
  "match evh e = ((getSig e AND h_sig evh) \<noteq> 0) \<and>
   match evh e = (\<exists>n. bit (getSig e) n \<and> bit (h_sig evh) n)"
  by (simp add: match_def word_nonzero_bit bit_and_iff)

theorem match_is_intersection_witness:
  "match \<lparr>h_sig = 6, h_handler = None\<rparr> (Event 2) \<and> getSig (Event 2) \<noteq> 6 \<and>
   \<not> match \<lparr>h_sig = 6, h_handler = None\<rparr> (Event 9)"
  using match_is_intersection [of "\<lparr>h_sig = 6, h_handler = None\<rparr>" "Event 2"]
    match_is_intersection [of "\<lparr>h_sig = 6, h_handler = None\<rparr>" "Event 9"]
  by simp

lemma handler_loop_None: "handler_loop hs e = None \<longleftrightarrow> (\<forall>x\<in>set hs. \<not> match x e)"
  by (induction hs) auto

lemma handler_loop_first:
  "\<forall>x\<in>set pre. \<not> match x e \<Longrightarrow> match h0 e \<Longrightarrow> handler_loop (pre @ h0 # post) e = Some h0"
  by (induction pre) auto

section \<open>The settling loop\<close>

lemma settle_complete: "settles P st nx c fin c' \<Longrightarrow> settle P st nx c = Some (fin, c')"
proof (induction rule: settles.induct)
  case (stop_none cur c)
  show ?case by (subst settle.simps) simp
next
  case (stop_self cur c)
  show ?case by (subst settle.simps) simp
next
  case (advance nxt cur c fin c')
  then show ?case by (subst settle.simps) simp
qed

lemma settle_sound:
  assumes "settle P st nx c = Some y"
  shows "settles P st nx c (fst y) (snd y)"
proof (rule settle.raw_induct
    [where Pa = "\<lambda>x y. settles (fst (fst (fst x))) (snd (fst (fst x))) (snd (fst x)) (snd x) (fst y) (snd y)",
     simplified, OF _ assms], goal_cases)
  case (1 f P st nx c y)
  show ?case
  proof (cases nx)
    case None
    with 1(2) show ?thesis by (auto intro: settles.intros)
  next
    case (Some n)
    show ?thesis
    proof (cases "n = st")
      case True
      with Some 1(2) show ?thesis by (auto intro: settles.intros)
    next
      case False
      with Some 1(2) have "f P n (fst (entry P n (exit P st c))) (snd (entry P n (exit P st c))) = Some y"
        by simp
      from 1(1)[OF this] False Some show ?thesis by (auto intro: settles.advance)
    qed
  qed
qed

lemma settle_iff: "settle P st nx c = Some (fin, c') \<longleftrightarrow> settles P st nx c fin c'"
  using settle_complete settle_sound[of P st nx c "(fin, c')"] by auto

section \<open>Dispatch\<close>

lemma dispatch_None:
  "dispatch P h S None c =
     map_option (\<lambda>r. (Some (fst r), snd r)) (settle P S (fst (entry P S c)) (snd (entry P S c)))"
  by (subst dispatch.simps) simp

lemma dispatch_Some:
  "dispatch P h S (Some ev) c =
     (case handler_loop (s_handlers (h S)) ev of
        Some handler \<Rightarrow> Some (EventHandler_dispatch P handler ev c)
      | None \<Rightarrow> (case s_parent (h S) of
                  Some parent \<Rightarrow> dispatch P h parent (Some ev) c
                | None \<Rightarrow> Some (None, c)))"
  by (subst dispatch.simps) simp

text \<open>
  C1. For every state \<open>S\<close>, \<^verbatim>\<open>S.dispatch\<close> with the null event calls \<^verbatim>\<open>S.entry()\<close> and
  then runs the chain: while the returned next state is non-null and differs from the
  current state, it exits the current state, makes the next state current and enters it;
  it stops when \<^verbatim>\<open>entry()\<close> returns no result or the current state itself, and returns the
  state it stopped at. The call returns \<open>r\<close> in context \<open>c'\<close> exactly when \<open>r\<close> is a
  non-null state at which the chain started by \<^verbatim>\<open>S.entry()\<close> stops, in context \<open>c'\<close>.
\<close>

theorem dispatch_no_event:
  "dispatch P h S None c = Some (r, c') \<longleftrightarrow>
     (\<exists>fin. r = Some fin \<and> settles P S (fst (entry P S c)) (snd (entry P S c)) fin c')"
  by (auto simp: dispatch_None settle_iff[symmetric])

lemma ex_dispatch_no_event:
  "dispatch ex_prog ex_heap 0 None ex_ctx =
     Some (Some 2, \<lparr>xif = 3, calls = [Entry 0, Exit 0, Entry 1, Exit 1, Entry 2]\<rparr>)"
  by (simp add: dispatch_None settle.simps ex_prog_def ex_ctx_def entry_def exit_def log_call_def)

theorem dispatch_no_event_witness:
  "settles ex_prog 0 (fst (entry ex_prog 0 ex_ctx)) (snd (entry ex_prog 0 ex_ctx)) 2
     \<lparr>xif = 3, calls = [Entry 0, Exit 0, Entry 1, Exit 1, Entry 2]\<rparr>"
  using dispatch_no_event [of ex_prog ex_heap 0 ex_ctx "Some 2"
      "\<lparr>xif = 3, calls = [Entry 0, Exit 0, Entry 1, Exit 1, Entry 2]\<rparr>"]
    ex_dispatch_no_event
  by simp

section \<open>The consumer loop\<close>

text \<open>
  C8. For every Hsm whose event queue is empty, \<^verbatim>\<open>dispatchEvents()\<close> returns at once with
  the active state as its result, and leaves the machine as it was: the active state, the
  queue, the registry, the heap and the context of the user code are unchanged.
\<close>

theorem dispatchEvents_empty:
  "hsm_events m = [] \<Longrightarrow> dispatchEvents P m = Some (hsm_state m, m)"
  by (subst dispatchEvents.simps) (simp add: getFirstItem_def)

theorem dispatchEvents_empty_witness:
  "hsm_events ex_hsm = [] \<and> dispatchEvents ex_prog ex_hsm = Some (0, ex_hsm)"
proof -
  have e: "hsm_events ex_hsm = []"
    by (simp add: ex_hsm_def attachState_def Hsm_new_def)
  have s: "hsm_state ex_hsm = 0"
    by (simp add: ex_hsm_def attachState_def Hsm_new_def)
  show ?thesis using e s dispatchEvents_empty [OF e, of ex_prog] by simp
qed

section \<open>Handler priority and delegation\<close>

lemma attach_handlers:
  "s_handlers (attach h S M t mp S) = s_handlers (h S) @ [\<lparr>h_sig = M, h_handler = Some (t, mp)\<rparr>]"
  by (simp add: attach_def addItem_def EventHandler_attach_def EventHandler_new_def)

text \<open>
  C2. For every state \<open>S\<close> and every non-null event \<open>e\<close>, dispatch scans the handlers of
  \<open>S\<close> in the order of their registration and invokes exactly the first one whose mask
  intersects the signal of \<open>e\<close>, returning its result: when the handlers before \<open>h1\<close> do
  not match and \<open>h1\<close> does, the call is the call of \<open>h1\<close>. \<^verbatim>\<open>attach\<close> appends at the end of
  the list. In particular, when \<open>M1\<close> is registered before \<open>M2\<close> on \<open>S\<close> (after handlers
  that do not match, if any) and both masks intersect the signal, the call returns what
  the method bound with \<open>M1\<close> returns, and the log grows by that one call.
\<close>

theorem dispatch_first_match:
  "(s_handlers (h S) = pre @ h1 # post \<and> (\<forall>x\<in>set pre. \<not> match x e) \<and> match h1 e \<longrightarrow>
      dispatch P h S (Some e) c = Some (EventHandler_dispatch P h1 e c)) \<and>
   s_handlers (attach h S M1 t1 m1 S) = s_handlers (h S) @ [\<lparr>h_sig = M1, h_handler = Some (t1, m1)\<rparr>] \<and>
   ((\<forall>x\<in>set (s_handlers (h S)). \<not> match x e) \<and> getSig e AND M1 \<noteq> 0 \<and> getSig e AND M2 \<noteq> 0 \<longrightarrow>
      dispatch P (attach (attach h S M1 t1 m1) S M2 t2 m2) S (Some e) c =
        Some (fst (v_member P m1 t1 e (xif c)),
              c\<lparr>xif := snd (v_member P m1 t1 e (xif c)), calls := calls c @ [Handler t1 m1 e]\<rparr>))"
proof (intro conjI impI)
  assume a: "s_handlers (h S) = pre @ h1 # post \<and> (\<forall>x\<in>set pre. \<not> match x e) \<and> match h1 e"
  then have "handler_loop (s_handlers (h S)) e = Some h1"
    by (simp add: handler_loop_first)
  then show "dispatch P h S (Some e) c = Some (EventHandler_dispatch P h1 e c)"
    by (simp add: dispatch_Some)
next
  show "s_handlers (attach h S M1 t1 m1 S) = s_handlers (h S) @ [\<lparr>h_sig = M1, h_handler = Some (t1, m1)\<rparr>]"
    by (rule attach_handlers)
next
  assume a: "(\<forall>x\<in>set (s_handlers (h S)). \<not> match x e) \<and> getSig e AND M1 \<noteq> 0 \<and> getSig e AND M2 \<noteq> 0"
  let ?h1 = "\<lparr>h_sig = M1, h_handler = Some (t1, m1)\<rparr>"
  let ?h2 = "\<lparr>h_sig = M2, h_handler = Some (t2, m2)\<rparr>"
  have hs: "s_handlers (attach (attach h S M1 t1 m1) S M2 t2 m2 S) = s_handlers (h S) @ ?h1 # [?h2]"
    by (simp add: attach_handlers)
  have "match ?h1 e" using a by (simp add: match_def)
  with a have "handler_loop (s_handlers (h S) @ ?h1 # [?h2]) e = Some ?h1"
    by (intro handler_loop_first) auto
  with hs show "dispatch P (attach (attach h S M1 t1 m1) S M2 t2 m2) S (Some e) c =
        Some (fst (v_member P m1 t1 e (xif c)),
              c\<lparr>xif := snd (v_member P m1 t1 e (xif c)), calls := calls c @ [Handler t1 m1 e]\<rparr>)"
    by (simp add: dispatch_Some EventHandler_dispatch_def log_call_def)
qed

theorem dispatch_first_match_witness:
  "dispatch ex_prog (attach (attach (\<lambda>a. State_new None) 5 3 5 0) 5 1 5 1) 5 (Some (Event 1)) ex_ctx =
     Some (Some 3, \<lparr>xif = 0, calls = [Handler 5 0 (Event 1)]\<rparr>)"
  using dispatch_first_match [of "\<lambda>a. State_new None" 5 "[]" "\<lparr>h_sig = 0, h_handler = None\<rparr>" "[]" "Event 1"
      ex_prog ex_ctx 3 5 0 1 5 1]
  by (simp add: State_new_def ex_prog_def ex_ctx_def)

lemma handler_loop_Some:
  "handler_loop hs e = Some h0 \<Longrightarrow>
   \<exists>pre post. hs = pre @ h0 # post \<and> (\<forall>x\<in>set pre. \<not> match x e) \<and> match h0 e"
proof (induction hs)
  case Nil
  then show ?case by simp
next
  case (Cons a hs)
  show ?case
  proof (cases "match a e")
    case True
    with Cons.prems have "a = h0" by simp
    with True have "a # hs = [] @ h0 # hs \<and> (\<forall>x\<in>set []. \<not> match x e) \<and> match h0 e" by simp
    then show ?thesis by blast
  next
    case False
    with Cons.prems have "handler_loop hs e = Some h0" by simp
    then obtain pre post where "hs = pre @ h0 # post" "\<forall>x\<in>set pre. \<not> match x e" "match h0 e"
      using Cons.IH by blast
    with False have "a # hs = (a # pre) @ h0 # post \<and> (\<forall>x\<in>set (a # pre). \<not> match x e) \<and> match h0 e"
      by simp
    then show ?thesis by blast
  qed
qed

lemma delegated_complete:
  "delegated P h s e c r \<Longrightarrow> dispatch P h s (Some e) c = Some r"
proof (induction rule: delegated.induct)
  case (d_handled s pre h0 post e c)
  then have "handler_loop (s_handlers (h s)) e = Some h0" by (simp add: handler_loop_first)
  then show ?case by (simp add: dispatch_Some)
next
  case (d_parent s e p c r)
  then show ?case by (simp add: dispatch_Some handler_loop_None [THEN iffD2])
next
  case (d_dropped s e c)
  then show ?case by (simp add: dispatch_Some handler_loop_None [THEN iffD2])
qed

lemma delegated_sound_aux:
  assumes "dispatch P h s eo c = Some y"
  shows "\<forall>e. eo = Some e \<longrightarrow> delegated P h s e c y"
proof (rule dispatch.raw_induct
    [where Pa = "\<lambda>x y. \<forall>e. snd (fst x) = Some e \<longrightarrow>
        delegated (fst (fst (fst (fst x)))) (snd (fst (fst (fst x)))) (snd (fst (fst x))) e (snd x) y",
     unfolded fst_conv snd_conv, OF _ assms], goal_cases)
  case (1 f P h s eo c y)
  show ?case
  proof (intro allI impI)
    fix e
    assume eo: "eo = Some e"
    show "delegated P h s e c y"
    proof (cases "handler_loop (s_handlers (h s)) e")
      case (Some h0)
      with 1(2) eo have y: "y = EventHandler_dispatch P h0 e c" by simp
      from handler_loop_Some [OF Some] obtain pre post where
        "s_handlers (h s) = pre @ h0 # post" "\<forall>x\<in>set pre. \<not> match x e" "match h0 e"
        by blast
      then show ?thesis unfolding y by (rule d_handled)
    next
      case None
      then have nm: "\<forall>x\<in>set (s_handlers (h s)). \<not> match x e" by (simp add: handler_loop_None)
      show ?thesis
      proof (cases "s_parent (h s)")
        case (Some p)
        with None 1(2) eo have "f P h p (Some e) c = Some y" by simp
        from 1(1) [OF this] have "delegated P h p e c y" by simp
        with nm Some show ?thesis by (rule d_parent)
      next
        case pn: None
        with None 1(2) eo have "y = (None, c)" by simp
        with nm pn show ?thesis by (simp add: d_dropped)
      qed
    qed
  qed
qed

lemma delegated_iff: "dispatch P h s (Some e) c = Some r \<longleftrightarrow> delegated P h s e c r"
  using delegated_complete delegated_sound_aux by blast

text \<open>
  C4. For every state \<open>S\<close> and non-null event \<open>e\<close> that no handler attached to \<open>S\<close>
  matches: when \<open>S\<close> has a parent, \<^verbatim>\<open>S.dispatch(e)\<close> is exactly the call of
  \<^verbatim>\<open>dispatch(e)\<close> on the parent (same result, same effect, and no return when that call does
  not return); so it returns what the first matching handler of the parent returns when
  the parent has one, and in general returns \<open>r\<close> exactly when the event, bubbling up from
  the parent through the ancestors only, yields \<open>r\<close>. When \<open>S\<close> has no parent, it returns no
  result and changes nothing.
\<close>

theorem dispatch_delegates:
  assumes "\<forall>x\<in>set (s_handlers (h S)). \<not> match x e"
  shows "dispatch P h S (Some e) c =
           (case s_parent (h S) of
              Some parent \<Rightarrow> dispatch P h parent (Some e) c
            | None \<Rightarrow> Some (None, c)) \<and>
         (s_parent (h S) = None \<longrightarrow> dispatch P h S (Some e) c = Some (None, c)) \<and>
         (\<forall>p. s_parent (h S) = Some p \<longrightarrow>
            (\<forall>pre h1 post.
               s_handlers (h p) = pre @ h1 # post \<and> (\<forall>x\<in>set pre. \<not> match x e) \<and> match h1 e \<longrightarrow>
               dispatch P h S (Some e) c = Some (EventHandler_dispatch P h1 e c)) \<and>
            (\<forall>r. dispatch P h S (Some e) c = Some r \<longleftrightarrow> delegated P h p e c r))"
proof -
  from assms have eq: "dispatch P h S (Some e) c =
           (case s_parent (h S) of
              Some parent \<Rightarrow> dispatch P h parent (Some e) c
            | None \<Rightarrow> Some (None, c))"
    by (simp add: dispatch_Some handler_loop_None [THEN iffD2])
  have up: "dispatch P h S (Some e) c = Some (EventHandler_dispatch P h1 e c)"
    if "s_parent (h S) = Some p" and
       "s_handlers (h p) = pre @ h1 # post \<and> (\<forall>x\<in>set pre. \<not> match x e) \<and> match h1 e"
    for p pre h1 post
  proof -
    from that(2) have "handler_loop (s_handlers (h p)) e = Some h1"
      by (simp add: handler_loop_first)
    then have "dispatch P h p (Some e) c = Some (EventHandler_dispatch P h1 e c)"
      by (simp add: dispatch_Some)
    with eq that(1) show ?thesis by simp
  qed
  have rel: "dispatch P h S (Some e) c = Some r \<longleftrightarrow> delegated P h p e c r"
    if "s_parent (h S) = Some p" for p r
    using eq that by (simp add: delegated_iff)
  from eq up rel show ?thesis by (auto split: option.splits)
qed

lemma ex_heap_simps:
  "ex_heap 0 = \<lparr>s_parent = None, s_handlers = []\<rparr>"
  "ex_heap 1 = \<lparr>s_parent = Some 0, s_handlers = []\<rparr>"
  "ex_heap (Suc 0) = \<lparr>s_parent = Some 0, s_handlers = []\<rparr>"
  "ex_heap 2 = \<lparr>s_parent = Some 1, s_handlers = [\<lparr>h_sig = 1, h_handler = Some (2, 0)\<rparr>]\<rparr>"
  "ex_heap 3 = \<lparr>s_parent = Some 1, s_handlers = [\<lparr>h_sig = 2, h_handler = Some (3, 1)\<rparr>]\<rparr>"
  by (simp_all add: ex_heap_def attach_def addItem_def EventHandler_attach_def EventHandler_new_def State_new_def)

lemma ex_heap_up_simps:
  "ex_heap_up 0 = \<lparr>s_parent = None, s_handlers = [\<lparr>h_sig = 16, h_handler = Some (0, 1)\<rparr>]\<rparr>"
  "ex_heap_up 1 = \<lparr>s_parent = Some 0, s_handlers = [\<lparr>h_sig = 8, h_handler = Some (1, 0)\<rparr>]\<rparr>"
  "ex_heap_up (Suc 0) = \<lparr>s_parent = Some 0, s_handlers = [\<lparr>h_sig = 8, h_handler = Some (1, 0)\<rparr>]\<rparr>"
  "ex_heap_up 2 = \<lparr>s_parent = Some 1, s_handlers = [\<lparr>h_sig = 1, h_handler = Some (2, 0)\<rparr>]\<rparr>"
  by (simp_all add: ex_heap_up_def ex_heap_simps attach_def addItem_def EventHandler_attach_def
      EventHandler_new_def)

theorem dispatch_delegates_witness:
  "dispatch ex_prog ex_heap_up 2 (Some (Event 8)) ex_ctx =
     Some (Some 3, \<lparr>xif = 0, calls = [Handler 1 0 (Event 8)]\<rparr>) \<and>
   dispatch ex_prog ex_heap_up 2 (Some (Event 16)) ex_ctx =
     Some (Some 2, \<lparr>xif = 0, calls = [Handler 0 1 (Event 16)]\<rparr>) \<and>
   dispatch ex_prog ex_heap_up 0 (Some (Event 4)) ex_ctx = Some (None, ex_ctx)"
proof -
  let ?h8 = "\<lparr>h_sig = 8, h_handler = Some (1, 0)\<rparr>"
  let ?h16 = "\<lparr>h_sig = 16, h_handler = Some (0, 1)\<rparr>"
  have n8: "\<forall>x\<in>set (s_handlers (ex_heap_up 2)). \<not> match x (Event 8)"
    by (simp add: ex_heap_up_simps match_def)
  have n16: "\<forall>x\<in>set (s_handlers (ex_heap_up 2)). \<not> match x (Event 16)"
    by (simp add: ex_heap_up_simps match_def)
  have n4: "\<forall>x\<in>set (s_handlers (ex_heap_up 0)). \<not> match x (Event 4)"
    by (simp add: ex_heap_up_simps match_def)
  have p2: "s_parent (ex_heap_up 2) = Some 1" by (simp add: ex_heap_up_simps)
  have a: "s_handlers (ex_heap_up 1) = [] @ ?h8 # [] \<and>
      (\<forall>x\<in>set []. \<not> match x (Event 8)) \<and> match ?h8 (Event 8)"
    by (simp add: ex_heap_up_simps match_def)
  from dispatch_delegates [where h = ex_heap_up and S = 2 and e = "Event 8" and P = ex_prog and c = ex_ctx, OF n8] p2 a
  have "dispatch ex_prog ex_heap_up 2 (Some (Event 8)) ex_ctx =
      Some (EventHandler_dispatch ex_prog ?h8 (Event 8) ex_ctx)"
    by blast
  then have w1: "dispatch ex_prog ex_heap_up 2 (Some (Event 8)) ex_ctx =
     Some (Some 3, \<lparr>xif = 0, calls = [Handler 1 0 (Event 8)]\<rparr>)"
    by (simp add: EventHandler_dispatch_def ex_prog_def ex_ctx_def log_call_def)
  have d0: "delegated ex_prog ex_heap_up 0 (Event 16) ex_ctx (EventHandler_dispatch ex_prog ?h16 (Event 16) ex_ctx)"
    by (rule d_handled [where pre = "[]" and post = "[]"]) (simp_all add: ex_heap_up_simps match_def)
  have "delegated ex_prog ex_heap_up 1 (Event 16) ex_ctx (EventHandler_dispatch ex_prog ?h16 (Event 16) ex_ctx)"
    by (rule d_parent [OF _ _ d0]) (simp_all add: ex_heap_up_simps match_def)
  with dispatch_delegates [where h = ex_heap_up and S = 2 and e = "Event 16" and P = ex_prog and c = ex_ctx, OF n16] p2
  have "dispatch ex_prog ex_heap_up 2 (Some (Event 16)) ex_ctx =
      Some (EventHandler_dispatch ex_prog ?h16 (Event 16) ex_ctx)"
    by blast
  then have w2: "dispatch ex_prog ex_heap_up 2 (Some (Event 16)) ex_ctx =
     Some (Some 2, \<lparr>xif = 0, calls = [Handler 0 1 (Event 16)]\<rparr>)"
    by (simp add: EventHandler_dispatch_def ex_prog_def ex_ctx_def log_call_def)
  from dispatch_delegates [where h = ex_heap_up and S = 0 and e = "Event 4" and P = ex_prog and c = ex_ctx, OF n4]
  have w3: "dispatch ex_prog ex_heap_up 0 (Some (Event 4)) ex_ctx = Some (None, ex_ctx)"
    by (simp add: ex_heap_up_simps)
  from w1 w2 w3 show ?thesis by simp
qed

section \<open>Events that nothing handles\<close>

lemma unhandled_here: "unhandled h s e \<Longrightarrow> handler_loop (s_handlers (h s)) e = None"
  unfolding unhandled_def handler_loop_None using anc_self by blast

lemma unhandled_parent: "unhandled h s e \<Longrightarrow> s_parent (h s) = Some p \<Longrightarrow> unhandled h p e"
  by (auto simp: unhandled_def intro: anc_parent)

lemma unhandled_partial_aux:
  assumes "dispatch P h s eo c = Some y"
  shows "\<forall>e. eo = Some e \<longrightarrow> unhandled h s e \<longrightarrow> y = (None, c)"
proof (rule dispatch.raw_induct
    [where Pa = "\<lambda>x y. \<forall>e. snd (fst x) = Some e \<longrightarrow> unhandled (snd (fst (fst (fst x)))) (snd (fst (fst x))) e \<longrightarrow> y = (None, snd x)",
     simplified, OF _ assms], goal_cases)
  case (1 f P h s eo c y)
  show ?case
  proof (intro allI impI)
    fix e
    assume eo: "eo = Some e" and un: "unhandled h s e"
    from un have hl: "handler_loop (s_handlers (h s)) e = None"
      by (rule unhandled_here)
    show "y = (None, c)"
    proof (cases "s_parent (h s)")
      case None
      with 1(2) eo hl show ?thesis by simp
    next
      case (Some p)
      with 1(2) eo hl have "f P h p (Some e) c = Some y" by simp
      moreover have "unhandled h p e" using un Some by (rule unhandled_parent)
      ultimately show ?thesis using 1(1) by blast
    qed
  qed
qed

lemma unhandled_partial:
  "dispatch P h s (Some e) c = Some y \<Longrightarrow> unhandled h s e \<Longrightarrow> y = (None, c)"
  using unhandled_partial_aux by blast

lemma unhandled_rooted:
  "rooted h n s \<Longrightarrow> unhandled h s e \<Longrightarrow> dispatch P h s (Some e) c = Some (None, c)"
proof (induction n arbitrary: s)
  case 0
  then show ?case by (simp add: dispatch_Some unhandled_here)
next
  case (Suc n)
  show ?case
  proof (cases "s_parent (h s)")
    case None
    with Suc.prems show ?thesis by (simp add: dispatch_Some unhandled_here)
  next
    case (Some p)
    with Suc.prems have "rooted h n p" "unhandled h p e"
      by (auto intro: unhandled_parent)
    then have "dispatch P h p (Some e) c = Some (None, c)" by (rule Suc.IH)
    with Some Suc.prems show ?thesis by (simp add: dispatch_Some unhandled_here)
  qed
qed

lemma settle_stop: "nx = None \<or> nx = Some st \<Longrightarrow> settle P st nx c = Some (st, c)"
  by (subst settle.simps) auto

lemma round_unhandled:
  assumes "dispatch P (heap m) (hsm_state m) (Some e) (log_call (Dispatch (hsm_state m) e) (ctx m)) =
             Some (None, log_call (Dispatch (hsm_state m) e) (ctx m))"
  shows "dispatchEvents_round P m e =
           Some (m\<lparr>ctx := log_call (Dispatch (hsm_state m) e) (ctx m),
                   hsm_events := removeItem (hsm_events m) e\<rparr>)"
  using assms by (simp add: dispatchEvents_round_def settle_stop)

lemma ancestor_chain: "ancestor h s t \<Longrightarrow> rooted h n s \<Longrightarrow> t \<in> set (chain h n s)"
proof (induction arbitrary: n rule: ancestor.induct)
  case (anc_self s)
  then show ?case by (cases n) simp_all
next
  case (anc_parent s p t)
  then show ?case by (cases n) auto
qed

lemma unhandledI:
  "rooted h n s \<Longrightarrow> \<forall>t\<in>set (chain h n s). \<forall>x\<in>set (s_handlers (h t)). \<not> match x e \<Longrightarrow> unhandled h s e"
  unfolding unhandled_def using ancestor_chain by blast

text \<open>
  C5. For every Hsm and every event that no handler of the active state or of any of its
  ancestors matches, the round of \<^verbatim>\<open>dispatchEvents\<close> that processes the event can only end
  with the machine as it was but for the removal of the event from the queue: the active
  state is the same, no \<^verbatim>\<open>entry()\<close>, \<^verbatim>\<open>exit()\<close> or handler is called (the log grows by the
  hand-over of the event alone), and the external interface object, the heap and the
  registry are untouched. When the parent chain of the active state ends, the round does
  end so.
\<close>

theorem unhandled_event_no_effect:
  assumes "unhandled (heap m) (hsm_state m) e"
  shows "(\<forall>m'. dispatchEvents_round P m e = Some m' \<longrightarrow>
            m' = m\<lparr>ctx := log_call (Dispatch (hsm_state m) e) (ctx m),
                    hsm_events := removeItem (hsm_events m) e\<rparr>) \<and>
         (rooted (heap m) n (hsm_state m) \<longrightarrow>
            dispatchEvents_round P m e =
              Some (m\<lparr>ctx := log_call (Dispatch (hsm_state m) e) (ctx m),
                      hsm_events := removeItem (hsm_events m) e\<rparr>))"
proof (intro conjI allI impI)
  fix m'
  assume r: "dispatchEvents_round P m e = Some m'"
  let ?c = "log_call (Dispatch (hsm_state m) e) (ctx m)"
  from r obtain d where d: "dispatch P (heap m) (hsm_state m) (Some e) ?c = Some d"
    by (auto simp: dispatchEvents_round_def split: Option.bind_splits)
  from d assms have "d = (None, ?c)" by (rule unhandled_partial)
  with d r round_unhandled [of P m e] show "m' = m\<lparr>ctx := ?c, hsm_events := removeItem (hsm_events m) e\<rparr>"
    by simp
next
  assume "rooted (heap m) n (hsm_state m)"
  then have "dispatch P (heap m) (hsm_state m) (Some e) (log_call (Dispatch (hsm_state m) e) (ctx m)) =
             Some (None, log_call (Dispatch (hsm_state m) e) (ctx m))"
    using assms by (rule unhandled_rooted)
  then show "dispatchEvents_round P m e =
              Some (m\<lparr>ctx := log_call (Dispatch (hsm_state m) e) (ctx m),
                      hsm_events := removeItem (hsm_events m) e\<rparr>)"
    by (rule round_unhandled)
qed

lemma ex_heap_root: "ex_heap(0 := State_new None) = ex_heap"
  by (rule ext) (simp add: ex_heap_simps State_new_def)

lemma ex_idle_simps:
  "heap ex_idle = ex_heap"
  "hsm_state ex_idle = 2"
  "this ex_idle = 0"
  "hsm_states ex_idle = [1, 2, 3]"
  "hsm_events ex_idle = []"
  "ctx ex_idle = \<lparr>xif = 3, calls = [Entry 0, Exit 0, Entry 1, Exit 1, Entry 2]\<rparr>"
  by (simp_all add: ex_idle_def ex_hsm_def attachState_def addItem_def Hsm_new_def ex_heap_root)

lemma ex_idle_unhandled: "unhandled (heap ex_idle) 2 (Event 4)"
  by (rule unhandledI [where n = "Suc (Suc 0)"])
    (simp_all add: ex_idle_simps ex_heap_simps match_def)

theorem unhandled_event_no_effect_witness:
  "unhandled (heap (raiseEvent ex_idle (Event 4))) (hsm_state (raiseEvent ex_idle (Event 4))) (Event 4) \<and>
   rooted (heap (raiseEvent ex_idle (Event 4))) (Suc (Suc 0)) (hsm_state (raiseEvent ex_idle (Event 4))) \<and>
   dispatchEvents_round ex_prog (raiseEvent ex_idle (Event 4)) (Event 4) =
     Some (ex_idle\<lparr>ctx := \<lparr>xif = 3,
        calls = [Entry 0, Exit 0, Entry 1, Exit 1, Entry 2, Dispatch 2 (Event 4)]\<rparr>\<rparr>)"
proof -
  let ?m = "raiseEvent ex_idle (Event 4)"
  have u: "unhandled (heap ?m) (hsm_state ?m) (Event 4)"
    using ex_idle_unhandled by (simp add: raiseEvent_def ex_idle_simps)
  have r: "rooted (heap ?m) (Suc (Suc 0)) (hsm_state ?m)"
    by (simp add: raiseEvent_def ex_idle_simps ex_heap_simps)
  have q: "?m\<lparr>ctx := log_call (Dispatch (hsm_state ?m) (Event 4)) (ctx ?m),
              hsm_events := removeItem (hsm_events ?m) (Event 4)\<rparr> =
           ex_idle\<lparr>ctx := \<lparr>xif = 3,
             calls = [Entry 0, Exit 0, Entry 1, Exit 1, Entry 2, Dispatch 2 (Event 4)]\<rparr>\<rparr>"
    by (simp add: raiseEvent_def ex_idle_simps addItem_def removeItem_def log_call_def)
  from unhandled_event_no_effect [OF u, of ex_prog "Suc (Suc 0)"] r have
    "dispatchEvents_round ex_prog ?m (Event 4) =
       Some (?m\<lparr>ctx := log_call (Dispatch (hsm_state ?m) (Event 4)) (ctx ?m),
                 hsm_events := removeItem (hsm_events ?m) (Event 4)\<rparr>)"
    by blast
  with u r q show ?thesis by simp
qed

section \<open>Termination of settling\<close>

lemma chain_after_settle:
  "settled (chain_after P k st nx c) \<Longrightarrow>
   settle P st nx c = Some (fst (chain_after P k st nx c), snd (snd (chain_after P k st nx c)))"
proof (induction k arbitrary: st nx c)
  case 0
  then show ?case by (simp add: settled_def settle_stop)
next
  case (Suc k)
  show ?case
  proof (cases nx)
    case None
    then show ?thesis by (simp add: settle_stop)
  next
    case (Some n)
    show ?thesis
    proof (cases "n = st")
      case True
      with Some show ?thesis by (simp add: settle_stop)
    next
      case False
      with Some Suc.prems have
        "settled (chain_after P k n (fst (entry P n (exit P st c))) (snd (entry P n (exit P st c))))"
        by simp
      then have "settle P n (fst (entry P n (exit P st c))) (snd (entry P n (exit P st c))) =
          Some (fst (chain_after P k n (fst (entry P n (exit P st c))) (snd (entry P n (exit P st c)))),
                snd (snd (chain_after P k n (fst (entry P n (exit P st c))) (snd (entry P n (exit P st c))))))"
        by (rule Suc.IH)
      with False Some show ?thesis by (subst settle.simps) simp
    qed
  qed
qed

lemma dispatchEvents_single:
  assumes "hsm_events m = [ev]" and "dispatchEvents_round P m ev = Some m'"
  shows "dispatchEvents P m = Some (hsm_state m', m')"
proof -
  from assms have "hsm_events m' = []"
    by (auto simp: dispatchEvents_round_def removeItem_def split: Option.bind_splits)
  then have "dispatchEvents P m' = Some (hsm_state m', m')"
    by (subst dispatchEvents.simps) (simp add: getFirstItem_def)
  with assms show ?thesis
    by (subst dispatchEvents.simps) (simp add: getFirstItem_def)
qed

text \<open>
  C6. Transition settling terminates. When the chain of entry-triggered transitions
  comes, after some number \<open>k\<close> of transitions, to an \<^verbatim>\<open>entry()\<close> that returns no result or
  the state it was called on (the specification's self-loop: the state is returned
  again), both loops stop and the final settled state is returned: \<^verbatim>\<open>dispatch\<close> with the
  null event returns the state the chain stopped at, and \<^verbatim>\<open>dispatchEvents\<close>, with one event
  queued whose dispatch returns, makes that state the active one, empties the queue and
  returns it.
\<close>

theorem settling_terminates:
  "(settled (chain_after P k S (fst (entry P S c)) (snd (entry P S c))) \<longrightarrow>
      dispatch P h S None c =
        Some (Some (fst (chain_after P k S (fst (entry P S c)) (snd (entry P S c)))),
              snd (snd (chain_after P k S (fst (entry P S c)) (snd (entry P S c)))))) \<and>
   (hsm_events m = [ev] \<and>
    dispatch P (heap m) (hsm_state m) (Some ev) (log_call (Dispatch (hsm_state m) ev) (ctx m)) = Some (nx, c1) \<and>
    settled (chain_after P k (hsm_state m) nx c1) \<longrightarrow>
      dispatchEvents P m =
        Some (fst (chain_after P k (hsm_state m) nx c1),
              m\<lparr>ctx := snd (snd (chain_after P k (hsm_state m) nx c1)),
                hsm_state := fst (chain_after P k (hsm_state m) nx c1),
                hsm_events := []\<rparr>))"
proof (intro conjI impI)
  assume "settled (chain_after P k S (fst (entry P S c)) (snd (entry P S c)))"
  then have "settle P S (fst (entry P S c)) (snd (entry P S c)) =
        Some (fst (chain_after P k S (fst (entry P S c)) (snd (entry P S c))),
              snd (snd (chain_after P k S (fst (entry P S c)) (snd (entry P S c)))))"
    by (rule chain_after_settle)
  then show "dispatch P h S None c =
        Some (Some (fst (chain_after P k S (fst (entry P S c)) (snd (entry P S c)))),
              snd (snd (chain_after P k S (fst (entry P S c)) (snd (entry P S c)))))"
    by (simp add: dispatch_None)
next
  assume a: "hsm_events m = [ev] \<and>
    dispatch P (heap m) (hsm_state m) (Some ev) (log_call (Dispatch (hsm_state m) ev) (ctx m)) = Some (nx, c1) \<and>
    settled (chain_after P k (hsm_state m) nx c1)"
  let ?K = "chain_after P k (hsm_state m) nx c1"
  from a have "settled ?K" by simp
  then have "settle P (hsm_state m) nx c1 = Some (fst ?K, snd (snd ?K))"
    by (rule chain_after_settle)
  with a have "dispatchEvents_round P m ev =
      Some (m\<lparr>ctx := snd (snd ?K), hsm_state := fst ?K, hsm_events := []\<rparr>)"
    by (simp add: dispatchEvents_round_def removeItem_def)
  with a show "dispatchEvents P m =
      Some (fst ?K, m\<lparr>ctx := snd (snd ?K), hsm_state := fst ?K, hsm_events := []\<rparr>)"
    using dispatchEvents_single [of m ev P] by simp
qed


lemma ex_entry_simps:
  "entry ex_prog s c =
     (if s = 0 then Some 1 else if s = 1 then Some 2 else None,
      \<lparr>xif = xif c + 1, calls = calls c @ [Entry s]\<rparr>)"
  "exit ex_prog s c = \<lparr>xif = xif c, calls = calls c @ [Exit s]\<rparr>"
  by (simp_all add: entry_def exit_def ex_prog_def log_call_def)

lemma ex_start:
  "dispatch ex_prog ex_heap 2 (Some (Event 1)) c =
     Some (Some 3, \<lparr>xif = xif c, calls = calls c @ [Handler 2 0 (Event 1)]\<rparr>)"
  by (simp add: dispatch_Some ex_heap_simps match_def EventHandler_dispatch_def ex_prog_def log_call_def)

theorem settling_terminates_witness:
  "dispatch ex_prog ex_heap 0 None ex_ctx =
     Some (Some 2, \<lparr>xif = 3, calls = [Entry 0, Exit 0, Entry 1, Exit 1, Entry 2]\<rparr>) \<and>
   dispatchEvents ex_prog (raiseEvent ex_idle (Event 1)) =
     Some (3, ex_idle\<lparr>ctx := \<lparr>xif = 4,
              calls = [Entry 0, Exit 0, Entry 1, Exit 1, Entry 2,
                       Dispatch 2 (Event 1), Handler 2 0 (Event 1), Exit 2, Entry 3]\<rparr>,
            hsm_state := 3\<rparr>)"
proof -
  let ?m = "raiseEvent ex_idle (Event 1)"
  let ?c1 = "\<lparr>xif = 3, calls = [Entry 0, Exit 0, Entry 1, Exit 1, Entry 2,
                       Dispatch 2 (Event 1), Handler 2 0 (Event 1)]\<rparr>"
  have a: "settled (chain_after ex_prog (Suc (Suc 0)) 0 (fst (entry ex_prog 0 ex_ctx)) (snd (entry ex_prog 0 ex_ctx)))"
    by (simp add: settled_def ex_entry_simps)
  have b: "hsm_events ?m = [Event 1] \<and>
    dispatch ex_prog (heap ?m) (hsm_state ?m) (Some (Event 1))
      (log_call (Dispatch (hsm_state ?m) (Event 1)) (ctx ?m)) = Some (Some 3, ?c1) \<and>
    settled (chain_after ex_prog (Suc 0) (hsm_state ?m) (Some 3) ?c1)"
    by (simp add: raiseEvent_def addItem_def ex_idle_simps ex_start log_call_def settled_def ex_entry_simps)
  from settling_terminates [of ex_prog "Suc (Suc 0)" 0 ex_ctx ex_heap] a
  have "dispatch ex_prog ex_heap 0 None ex_ctx =
     Some (Some 2, \<lparr>xif = 3, calls = [Entry 0, Exit 0, Entry 1, Exit 1, Entry 2]\<rparr>)"
    by (simp add: ex_entry_simps ex_ctx_def)
  moreover from settling_terminates [of ex_prog "Suc 0" 0 ex_ctx ex_heap ?m "Event 1" "Some 3" ?c1] b
  have "dispatchEvents ex_prog ?m =
     Some (3, ex_idle\<lparr>ctx := \<lparr>xif = 4,
              calls = [Entry 0, Exit 0, Entry 1, Exit 1, Entry 2,
                       Dispatch 2 (Event 1), Handler 2 0 (Event 1), Exit 2, Entry 3]\<rparr>,
            hsm_state := 3\<rparr>)"
    by (simp add: ex_entry_simps raiseEvent_def ex_idle_simps)
  ultimately show ?thesis by simp
qed

text \<open>
  The hypothesis is needed. The loop compares the pending state with the current one
  only, so two states whose \<^verbatim>\<open>entry()\<close> name each other keep it running: the call never
  returns.
\<close>

lemma pingpong_never:
  assumes "settle P st nx c = Some y"
  shows "\<not> (P = pingpong \<and> (st = 0 \<and> nx = Some (Suc 0) \<or> st = Suc 0 \<and> nx = Some 0))"
proof (rule settle.raw_induct
    [where Pa = "\<lambda>x y. \<not> (fst (fst (fst x)) = pingpong \<and>
        (snd (fst (fst x)) = 0 \<and> snd (fst x) = Some (Suc 0) \<or> snd (fst (fst x)) = Suc 0 \<and> snd (fst x) = Some 0))",
     unfolded fst_conv snd_conv, OF _ assms], goal_cases)
  case (1 f P st nx c y)
  show ?case
  proof
    assume a: "P = pingpong \<and> (st = 0 \<and> nx = Some (Suc 0) \<or> st = Suc 0 \<and> nx = Some 0)"
    then have p: "P = pingpong" by simp
    from a have "st = 0 \<and> nx = Some (Suc 0) \<or> st = Suc 0 \<and> nx = Some 0" by simp
    then show False
    proof
      assume s: "st = 0 \<and> nx = Some (Suc 0)"
      have e: "fst (entry pingpong (Suc 0) (exit pingpong 0 c)) = Some 0"
        by (simp add: entry_def pingpong_def)
      from 1(2) s p e have "f pingpong (Suc 0) (Some 0) (snd (entry pingpong (Suc 0) (exit pingpong 0 c))) = Some y"
        by simp
      from 1(1) [OF this] show False by simp
    next
      assume s: "st = Suc 0 \<and> nx = Some 0"
      have e: "fst (entry pingpong 0 (exit pingpong (Suc 0) c)) = Some (Suc 0)"
        by (simp add: entry_def pingpong_def)
      from 1(2) s p e have "f pingpong 0 (Some (Suc 0)) (snd (entry pingpong 0 (exit pingpong (Suc 0) c))) = Some y"
        by simp
      from 1(1) [OF this] show False by simp
    qed
  qed
qed

lemma pingpong_diverges: "dispatch pingpong h 0 None c = None"
proof (cases "settle pingpong 0 (Some (Suc 0)) (snd (entry pingpong 0 c))")
  case None
  moreover have "fst (entry pingpong 0 c) = Some (Suc 0)"
    by (simp add: entry_def pingpong_def)
  ultimately show ?thesis by (simp add: dispatch_None)
next
  case (Some y)
  from pingpong_never [OF this] show ?thesis by simp
qed

section \<open>The signal 0\<close>

lemma sig0_no_match: "getSig e = 0 \<Longrightarrow> \<not> match x e"
  by (simp add: match_def)

lemma sig0_unhandled: "getSig e = 0 \<Longrightarrow> unhandled h s e"
  by (simp add: unhandled_def sig0_no_match)

lemma loop_heap_never:
  assumes "dispatch P h s eo c = Some y"
  shows "\<not> (h = loop_heap \<and> eo \<noteq> None)"
proof (rule dispatch.raw_induct
    [where Pa = "\<lambda>x y. \<not> (snd (fst (fst (fst x))) = loop_heap \<and> snd (fst x) \<noteq> None)",
     unfolded fst_conv snd_conv, OF _ assms], goal_cases)
  case (1 f P h s eo c y)
  show ?case
  proof
    assume a: "h = loop_heap \<and> eo \<noteq> None"
    then obtain e where e: "eo = Some e" by auto
    from a have hs: "s_handlers (h s) = []" "s_parent (h s) = Some s"
      by (simp_all add: loop_heap_def State_new_def)
    from 1(2) e hs have "f P h s eo c = Some y" by simp
    from 1(1) [OF this] a show False by simp
  qed
qed

text \<open>
  C10, as stated, fails where the parent chain is cyclic: on a state that is its own
  parent the recursion of \<^verbatim>\<open>dispatch\<close> through \<^verbatim>\<open>_parent\<close> never ends, so the call with an
  event of signal 0 does not return at all.
\<close>

theorem signal_zero_counterexample:
  "getSig (Event 0) = 0 \<and> dispatch ex_prog loop_heap 0 (Some (Event 0)) ex_ctx = None"
proof (cases "dispatch ex_prog loop_heap 0 (Some (Event 0)) ex_ctx")
  case None
  then show ?thesis by simp
next
  case (Some y)
  from loop_heap_never [OF this] show ?thesis by simp
qed

text \<open>
  C10, amended. For every non-null event \<open>e\<close> whose signal is 0, no handler matches \<open>e\<close>
  (and a freshly constructed handler, whose mask is 0, matches no event at all); so for
  every state \<open>S\<close>, \<^verbatim>\<open>S.dispatch(e)\<close> can only return no result, with nothing changed, and
  it does return so whenever the parent chain of \<open>S\<close> ends in a state without parent;
  draining such an event then leaves the active state unchanged.
\<close>

theorem signal_zero_unhandled:
  assumes "getSig e = 0"
  shows "(\<forall>x. \<not> match x e) \<and>
         (\<forall>e'. \<not> match EventHandler_new e') \<and>
         (\<forall>y. dispatch P h S (Some e) c = Some y \<longrightarrow> y = (None, c)) \<and>
         (rooted h n S \<longrightarrow> dispatch P h S (Some e) c = Some (None, c)) \<and>
         (rooted (heap m) n (hsm_state m) \<longrightarrow>
            dispatchEvents_round P m e =
              Some (m\<lparr>ctx := log_call (Dispatch (hsm_state m) e) (ctx m),
                      hsm_events := removeItem (hsm_events m) e\<rparr>))"
proof (intro conjI allI impI)
  fix x show "\<not> match x e" using assms by (rule sig0_no_match)
next
  fix e' show "\<not> match EventHandler_new e'" by (simp add: match_def EventHandler_new_def)
next
  fix y assume "dispatch P h S (Some e) c = Some y"
  then show "y = (None, c)" using sig0_unhandled [OF assms] by (rule unhandled_partial)
next
  assume "rooted h n S"
  then show "dispatch P h S (Some e) c = Some (None, c)"
    using sig0_unhandled [OF assms] by (rule unhandled_rooted)
next
  assume "rooted (heap m) n (hsm_state m)"
  then have "dispatch P (heap m) (hsm_state m) (Some e) (log_call (Dispatch (hsm_state m) e) (ctx m)) =
             Some (None, log_call (Dispatch (hsm_state m) e) (ctx m))"
    using sig0_unhandled [OF assms] by (rule unhandled_rooted)
  then show "dispatchEvents_round P m e =
              Some (m\<lparr>ctx := log_call (Dispatch (hsm_state m) e) (ctx m),
                      hsm_events := removeItem (hsm_events m) e\<rparr>)"
    by (rule round_unhandled)
qed

theorem signal_zero_unhandled_witness:
  "getSig (Event 0) = 0 \<and> rooted ex_heap (Suc (Suc 0)) 3 \<and>
   dispatch ex_prog ex_heap 3 (Some (Event 0)) ex_ctx = Some (None, ex_ctx) \<and>
   dispatchEvents_round ex_prog (raiseEvent ex_idle (Event 0)) (Event 0) =
     Some (ex_idle\<lparr>ctx := \<lparr>xif = 3,
        calls = [Entry 0, Exit 0, Entry 1, Exit 1, Entry 2, Dispatch 2 (Event 0)]\<rparr>\<rparr>)"
proof -
  let ?m = "raiseEvent ex_idle (Event 0)"
  have z: "getSig (Event 0) = 0" by simp
  have r3: "rooted ex_heap (Suc (Suc 0)) 3" by (simp add: ex_heap_simps)
  have r2: "rooted (heap ?m) (Suc (Suc 0)) (hsm_state ?m)"
    by (simp add: raiseEvent_def ex_idle_simps ex_heap_simps)
  have q: "?m\<lparr>ctx := log_call (Dispatch (hsm_state ?m) (Event 0)) (ctx ?m),
              hsm_events := removeItem (hsm_events ?m) (Event 0)\<rparr> =
           ex_idle\<lparr>ctx := \<lparr>xif = 3,
             calls = [Entry 0, Exit 0, Entry 1, Exit 1, Entry 2, Dispatch 2 (Event 0)]\<rparr>\<rparr>"
    by (simp add: raiseEvent_def ex_idle_simps addItem_def removeItem_def log_call_def)
  from signal_zero_unhandled [OF z, of ex_prog ex_heap 3 ex_ctx "Suc (Suc 0)" ?m] r3 r2
  have "dispatch ex_prog ex_heap 3 (Some (Event 0)) ex_ctx = Some (None, ex_ctx)"
    and "dispatchEvents_round ex_prog ?m (Event 0) =
       Some (?m\<lparr>ctx := log_call (Dispatch (hsm_state ?m) (Event 0)) (ctx ?m),
                 hsm_events := removeItem (hsm_events ?m) (Event 0)\<rparr>)"
    by blast+
  with z r3 q show ?thesis by simp
qed

section \<open>The order of the queue\<close>

lemma round_events:
  "dispatchEvents_round P m e = Some m' \<Longrightarrow> hsm_events m' = removeItem (hsm_events m) e"
  by (auto simp: dispatchEvents_round_def split: Option.bind_splits)

lemma dispatchEvents_in_order_aux:
  "hsm_events m = es \<Longrightarrow> dispatchEvents P m = in_order P es m"
proof (induction es arbitrary: m)
  case Nil
  then show ?case by (subst dispatchEvents.simps) (simp add: getFirstItem_def)
next
  case (Cons e es)
  show ?case
  proof (cases "dispatchEvents_round P m e")
    case None
    with Cons.prems show ?thesis
      by (subst dispatchEvents.simps) (simp add: getFirstItem_def)
  next
    case (Some m')
    with Cons.prems have "hsm_events m' = es"
      by (simp add: round_events removeItem_def)
    then have "dispatchEvents P m' = in_order P es m'" by (rule Cons.IH)
    with Some Cons.prems show ?thesis
      by (subst dispatchEvents.simps) (simp add: getFirstItem_def)
  qed
qed

lemma raise_all: "hsm_events (foldl raiseEvent m es) = hsm_events m @ es"
  by (induction es arbitrary: m) (simp_all add: raiseEvent_def addItem_def)

lemma raise_all_ctx: "ctx (foldl raiseEvent m es) = ctx m"
  by (induction es arbitrary: m) (simp_all add: raiseEvent_def)

lemma dispatched_append: "dispatched (xs @ ys) = dispatched xs @ dispatched ys"
  by (induction xs rule: dispatched.induct) simp_all

lemma settles_dispatched:
  "settles P st nx c fin c' \<Longrightarrow> dispatched (calls c') = dispatched (calls c)"
  by (induction rule: settles.induct)
    (simp_all add: entry_def exit_def log_call_def dispatched_append)

lemma dispatch_dispatched_aux:
  assumes "dispatch P h s eo c = Some y"
  shows "eo \<noteq> None \<longrightarrow> dispatched (calls (snd y)) = dispatched (calls c)"
proof (rule dispatch.raw_induct
    [where Pa = "\<lambda>x y. snd (fst x) \<noteq> None \<longrightarrow> dispatched (calls (snd y)) = dispatched (calls (snd x))",
     unfolded fst_conv snd_conv, OF _ assms], goal_cases)
  case (1 f P h s eo c y)
  show ?case
  proof
    assume "eo \<noteq> None"
    then obtain e where e: "eo = Some e" by auto
    show "dispatched (calls (snd y)) = dispatched (calls c)"
    proof (cases "handler_loop (s_handlers (h s)) e")
      case (Some hd)
      with 1(2) e have "y = EventHandler_dispatch P hd e c" by simp
      then show ?thesis
        by (simp add: EventHandler_dispatch_def log_call_def dispatched_append split: option.splits prod.splits)
    next
      case None
      show ?thesis
      proof (cases "s_parent (h s)")
        case (Some p)
        with None 1(2) e have "f P h p eo c = Some y" by simp
        from 1(1) [OF this] e show ?thesis by simp
      next
        case pn: None
        with None 1(2) e show ?thesis by auto
      qed
    qed
  qed
qed

lemma round_dispatched:
  assumes "dispatchEvents_round P m e = Some m'"
  shows "dispatched (calls (ctx m')) = dispatched (calls (ctx m)) @ [e]"
proof -
  let ?c = "log_call (Dispatch (hsm_state m) e) (ctx m)"
  from assms obtain d r where
    d: "dispatch P (heap m) (hsm_state m) (Some e) ?c = Some d" and
    r: "settle P (hsm_state m) (fst d) (snd d) = Some r" and
    m': "ctx m' = snd r"
    by (auto simp: dispatchEvents_round_def split: Option.bind_splits)
  from dispatch_dispatched_aux [OF d] have "dispatched (calls (snd d)) = dispatched (calls ?c)"
    by simp
  moreover from settle_sound [OF r] have "dispatched (calls (snd r)) = dispatched (calls (snd d))"
    by (rule settles_dispatched)
  ultimately show ?thesis using m' by (simp add: log_call_def dispatched_append)
qed

lemma in_order_dispatched:
  "in_order P es m = Some (r, m') \<Longrightarrow>
   dispatched (calls (ctx m')) = dispatched (calls (ctx m)) @ es"
proof (induction es arbitrary: m)
  case Nil
  then show ?case by simp
next
  case (Cons e es)
  then obtain m1 where m1: "dispatchEvents_round P m e = Some m1" and
    rest: "in_order P es m1 = Some (r, m')"
    by (auto split: Option.bind_splits)
  from Cons.IH [OF rest] round_dispatched [OF m1] show ?case by simp
qed

lemma in_order_drains:
  "in_order P es m = Some (r, m') \<Longrightarrow> hsm_events m = es \<Longrightarrow> hsm_events m' = [] \<and> r = hsm_state m'"
proof (induction es arbitrary: m)
  case Nil
  then show ?case by auto
next
  case (Cons e es)
  then obtain m1 where m1: "dispatchEvents_round P m e = Some m1" and
    rest: "in_order P es m1 = Some (r, m')"
    by (auto split: Option.bind_splits)
  from m1 Cons.prems have "hsm_events m1 = es" by (simp add: round_events removeItem_def)
  with rest show ?case by (rule Cons.IH)
qed

text \<open>
  C7. FIFO order. For every sequence of events \<open>es\<close> enqueued by \<^verbatim>\<open>raiseEvent\<close> one after
  the other, \<^verbatim>\<open>raiseEvent\<close> having appended each at the tail of the queue, a subsequent
  \<^verbatim>\<open>dispatchEvents()\<close> does what dispatching the queued events one by one in that order
  does, each against the state active at its turn (after what was queued before, if
  anything); and when it returns, the log shows the events handed over in exactly that
  order, the queue is empty and the result is the active state.
\<close>

theorem fifo_order:
  "dispatchEvents P (foldl raiseEvent m es) =
     in_order P (hsm_events m @ es) (foldl raiseEvent m es) \<and>
   (\<forall>r m'. dispatchEvents P (foldl raiseEvent m es) = Some (r, m') \<longrightarrow>
      dispatched (calls (ctx m')) = dispatched (calls (ctx m)) @ hsm_events m @ es \<and>
      hsm_events m' = [] \<and> r = hsm_state m')"
proof -
  let ?m = "foldl raiseEvent m es"
  have q: "hsm_events ?m = hsm_events m @ es" by (rule raise_all)
  then have eq: "dispatchEvents P ?m = in_order P (hsm_events m @ es) ?m"
    by (rule dispatchEvents_in_order_aux)
  show ?thesis
  proof (intro conjI allI impI)
    show "dispatchEvents P ?m = in_order P (hsm_events m @ es) ?m" by (rule eq)
  next
    fix r m'
    assume "dispatchEvents P ?m = Some (r, m')"
    with eq have io: "in_order P (hsm_events m @ es) ?m = Some (r, m')" by simp
    from in_order_dispatched [OF io]
    show "dispatched (calls (ctx m')) = dispatched (calls (ctx m)) @ hsm_events m @ es"
      by (simp add: raise_all_ctx)
  next
    fix r m'
    assume "dispatchEvents P ?m = Some (r, m')"
    with eq have io: "in_order P (hsm_events m @ es) ?m = Some (r, m')" by simp
    from in_order_drains [OF io q] show "hsm_events m' = []" by simp
  next
    fix r m'
    assume "dispatchEvents P ?m = Some (r, m')"
    with eq have io: "in_order P (hsm_events m @ es) ?m = Some (r, m')" by simp
    from in_order_drains [OF io q] show "r = hsm_state m'" by simp
  qed
qed


lemma ex_stop:
  "dispatch ex_prog ex_heap 3 (Some (Event 2)) c =
     Some (Some 2, \<lparr>xif = xif c, calls = calls c @ [Handler 3 1 (Event 2)]\<rparr>)"
  by (simp add: dispatch_Some ex_heap_simps match_def EventHandler_dispatch_def ex_prog_def log_call_def)

theorem fifo_order_witness:
  "dispatchEvents ex_prog (foldl raiseEvent ex_idle [Event 1, Event 2, Event 1]) =
     Some (3, ex_idle\<lparr>ctx := \<lparr>xif = 6,
         calls = [Entry 0, Exit 0, Entry 1, Exit 1, Entry 2,
                  Dispatch 2 (Event 1), Handler 2 0 (Event 1), Exit 2, Entry 3,
                  Dispatch 3 (Event 2), Handler 3 1 (Event 2), Exit 3, Entry 2,
                  Dispatch 2 (Event 1), Handler 2 0 (Event 1), Exit 2, Entry 3]\<rparr>,
       hsm_state := 3\<rparr>) \<and>
   dispatched [Entry 0, Exit 0, Entry 1, Exit 1, Entry 2,
                  Dispatch 2 (Event 1), Handler 2 0 (Event 1), Exit 2, Entry 3,
                  Dispatch 3 (Event 2), Handler 3 1 (Event 2), Exit 3, Entry 2,
                  Dispatch 2 (Event 1), Handler 2 0 (Event 1), Exit 2, Entry 3] =
     [Event 1, Event 2, Event 1]"
proof -
  have "in_order ex_prog (hsm_events ex_idle @ [Event 1, Event 2, Event 1])
          (foldl raiseEvent ex_idle [Event 1, Event 2, Event 1]) =
     Some (3, ex_idle\<lparr>ctx := \<lparr>xif = 6,
         calls = [Entry 0, Exit 0, Entry 1, Exit 1, Entry 2,
                  Dispatch 2 (Event 1), Handler 2 0 (Event 1), Exit 2, Entry 3,
                  Dispatch 3 (Event 2), Handler 3 1 (Event 2), Exit 3, Entry 2,
                  Dispatch 2 (Event 1), Handler 2 0 (Event 1), Exit 2, Entry 3]\<rparr>,
       hsm_state := 3\<rparr>)"
    by (simp add: ex_idle_simps raiseEvent_def addItem_def removeItem_def dispatchEvents_round_def
        ex_start ex_stop settle.simps ex_entry_simps log_call_def)
  with fifo_order [of ex_prog ex_idle "[Event 1, Event 2, Event 1]"] show ?thesis
    by simp
qed

section \<open>The active state\<close>

lemma entry_target: "fst (entry P s c) = Some t \<Longrightarrow> t \<in> targets P"
  by (auto simp: entry_def targets_def)

lemma settles_target:
  "settles P st nx c fin c' \<Longrightarrow> (\<forall>n. nx = Some n \<longrightarrow> n \<in> targets P) \<Longrightarrow>
   fin = st \<or> fin \<in> targets P"
proof (induction rule: settles.induct)
  case (stop_none cur c)
  then show ?case by simp
next
  case (stop_self cur c)
  then show ?case by simp
next
  case (advance nxt cur c fin c')
  have "\<forall>n. fst (entry P nxt (exit P cur c)) = Some n \<longrightarrow> n \<in> targets P"
    by (auto intro: entry_target)
  with advance.IH have "fin = nxt \<or> fin \<in> targets P" by simp
  moreover from advance.prems have "nxt \<in> targets P" by simp
  ultimately show ?case by auto
qed

lemma dispatch_target_aux:
  assumes "dispatch P h s eo c = Some y"
  shows "eo \<noteq> None \<longrightarrow> (\<forall>n. fst y = Some n \<longrightarrow> n \<in> targets P)"
proof (rule dispatch.raw_induct
    [where Pa = "\<lambda>x y. snd (fst x) \<noteq> None \<longrightarrow> (\<forall>n. fst y = Some n \<longrightarrow> n \<in> targets (fst (fst (fst (fst x)))))",
     unfolded fst_conv snd_conv, OF _ assms], goal_cases)
  case (1 f P h s eo c y)
  show ?case
  proof
    assume "eo \<noteq> None"
    then obtain e where e: "eo = Some e" by auto
    show "\<forall>n. fst y = Some n \<longrightarrow> n \<in> targets P"
    proof (cases "handler_loop (s_handlers (h s)) e")
      case (Some hd)
      with 1(2) e have "y = EventHandler_dispatch P hd e c" by simp
      then show ?thesis
        by (auto simp: EventHandler_dispatch_def targets_def split: option.splits prod.splits)
    next
      case None
      show ?thesis
      proof (cases "s_parent (h s)")
        case (Some p)
        with None 1(2) e have "f P h p eo c = Some y" by simp
        from 1(1) [OF this] e show ?thesis by simp
      next
        case pn: None
        with None 1(2) e show ?thesis by auto
      qed
    qed
  qed
qed

lemma init_state:
  assumes "init P m = Some (r, m')"
  shows "this m' = this m \<and> hsm_states m' = hsm_states m \<and>
         (hsm_state m' = this m \<or> hsm_state m' \<in> targets P)"
proof -
  let ?e = "entry P (this m) (ctx m)"
  from assms obtain y where
    y: "settle P (this m) (fst ?e) (snd ?e) = Some y" and
    m': "m' = m\<lparr>ctx := snd y, hsm_state := fst y\<rparr>"
    by (auto simp: init_def dispatch_None split: option.splits)
  have "\<forall>n. fst ?e = Some n \<longrightarrow> n \<in> targets P" by (auto intro: entry_target)
  with settle_sound [OF y] have "fst y = this m \<or> fst y \<in> targets P"
    by (rule settles_target)
  with m' show ?thesis by simp
qed

lemma round_state:
  assumes "dispatchEvents_round P m e = Some m'"
  shows "this m' = this m \<and> hsm_states m' = hsm_states m \<and>
         (hsm_state m' = hsm_state m \<or> hsm_state m' \<in> targets P)"
proof -
  let ?c = "log_call (Dispatch (hsm_state m) e) (ctx m)"
  from assms obtain d y where
    d: "dispatch P (heap m) (hsm_state m) (Some e) ?c = Some d" and
    y: "settle P (hsm_state m) (fst d) (snd d) = Some y" and
    m': "m' = m\<lparr>ctx := snd y, hsm_state := fst y, hsm_events := removeItem (hsm_events m) e\<rparr>"
    by (auto simp: dispatchEvents_round_def split: Option.bind_splits)
  from dispatch_target_aux [OF d] have "\<forall>n. fst d = Some n \<longrightarrow> n \<in> targets P" by simp
  with settle_sound [OF y] have "fst y = hsm_state m \<or> fst y \<in> targets P"
    by (rule settles_target)
  with m' show ?thesis by simp
qed

lemma in_order_state:
  "in_order P es m = Some (r, m') \<Longrightarrow>
   this m' = this m \<and> hsm_states m' = hsm_states m \<and>
   (hsm_state m' = hsm_state m \<or> hsm_state m' \<in> targets P)"
proof (induction es arbitrary: m)
  case Nil
  then show ?case by auto
next
  case (Cons e es)
  then obtain m1 where m1: "dispatchEvents_round P m e = Some m1" and
    rest: "in_order P es m1 = Some (r, m')"
    by (auto split: Option.bind_splits)
  from Cons.IH [OF rest] round_state [OF m1] show ?case by auto
qed

lemma dispatchEvents_state:
  assumes "dispatchEvents P m = Some (r, m')"
  shows "this m' = this m \<and> hsm_states m' = hsm_states m \<and>
         (hsm_state m' = hsm_state m \<or> hsm_state m' \<in> targets P)"
proof -
  have "dispatchEvents P m = in_order P (hsm_events m) m"
    by (rule dispatchEvents_in_order_aux) simp
  with assms have "in_order P (hsm_events m) m = Some (r, m')" by simp
  then show ?thesis by (rule in_order_state)
qed

lemma reachable_state:
  "reachable P m \<Longrightarrow> hsm_state m = this m \<or> hsm_state m \<in> targets P"
proof (induction rule: reachable.induct)
  case (r_new h c addr parent)
  show ?case by (simp add: Hsm_new_def)
next
  case (r_init m r m')
  with init_state [OF r_init.hyps(2)] show ?case by auto
next
  case (r_attachState m st)
  then show ?case by (simp add: attachState_def)
next
  case (r_raiseEvent m e)
  then show ?case by (simp add: raiseEvent_def)
next
  case (r_dispatchEvents m r m')
  with dispatchEvents_state [OF r_dispatchEvents.hyps(2)] show ?case by auto
next
  case (r_attach m s signal tptr mp)
  then show ?case by simp
qed

text \<open>
  C9, as stated, fails: nothing in the code ties the active state to the registry.
  \<^verbatim>\<open>init()\<close> called right after the constructor settles the test machine on Idle (address
  2) while \<^verbatim>\<open>_states\<close> is still empty, so \<^verbatim>\<open>_state\<close> is neither in the attached set nor the
  Hsm itself (address 0).
\<close>

theorem active_state_counterexample:
  "init ex_prog (Hsm_new ex_heap ex_ctx 0 None) = Some (2, ex_unattached) \<and>
   reachable ex_prog ex_unattached \<and>
   hsm_state ex_unattached = 2 \<and> hsm_states ex_unattached = [] \<and> this ex_unattached = 0 \<and>
   \<not> (hsm_state ex_unattached \<in> set (hsm_states ex_unattached) \<or>
      hsm_state ex_unattached = this ex_unattached)"
proof -
  have i: "init ex_prog (Hsm_new ex_heap ex_ctx 0 None) = Some (2, ex_unattached)"
    by (simp add: init_def Hsm_new_def ex_heap_root ex_dispatch_no_event ex_unattached_def)
  with r_new have "reachable ex_prog ex_unattached" by (rule r_init)
  with i show ?thesis by (simp add: ex_unattached_def Hsm_new_def)
qed

text \<open>
  C9, amended. In every reachable configuration of an Hsm (after construction, after
  \<^verbatim>\<open>init\<close>, and after any sequence of \<^verbatim>\<open>attachState\<close>, \<^verbatim>\<open>raiseEvent\<close>, \<^verbatim>\<open>dispatchEvents\<close>
  and \<^verbatim>\<open>attach\<close> calls), \<^verbatim>\<open>_state\<close> refers to the Hsm itself or to a transition target: a
  state that some \<^verbatim>\<open>entry()\<close> or some bound transition method returns. So it refers to a
  State contained in the attached set or to the Hsm itself whenever every transition
  target is attached or is the Hsm itself.
\<close>

theorem active_state_invariant:
  assumes "reachable P m"
  shows "(hsm_state m = this m \<or> hsm_state m \<in> targets P) \<and>
         (targets P \<subseteq> set (hsm_states m) \<union> {this m} \<longrightarrow>
            hsm_state m \<in> set (hsm_states m) \<or> hsm_state m = this m)"
  using reachable_state [OF assms] by auto

lemma ex_init: "init ex_prog ex_hsm = Some (2, ex_idle)"
proof -
  have "heap ex_hsm = ex_heap" "this ex_hsm = 0" "ctx ex_hsm = ex_ctx"
    by (simp_all add: ex_hsm_def attachState_def Hsm_new_def ex_heap_root)
  then show ?thesis
    by (simp add: init_def ex_dispatch_no_event ex_idle_def)
qed

lemma ex_hsm_reachable: "reachable ex_prog ex_hsm"
  unfolding ex_hsm_def by (intro r_attachState r_new)

theorem active_state_invariant_witness:
  "reachable ex_prog ex_idle \<and> hsm_state ex_idle \<in> targets ex_prog \<and>
   targets ex_prog \<subseteq> set (hsm_states ex_idle) \<union> {this ex_idle} \<and>
   hsm_state ex_idle \<in> set (hsm_states ex_idle)"
proof -
  have r: "reachable ex_prog ex_idle"
    using ex_hsm_reachable ex_init by (rule r_init)
  have t: "targets ex_prog \<subseteq> set (hsm_states ex_idle) \<union> {this ex_idle}"
    by (auto simp: targets_def ex_prog_def ex_idle_simps split: if_splits)
  from active_state_invariant [OF r] have "hsm_state ex_idle \<in> targets ex_prog"
    by (simp add: ex_idle_simps)
  with r t show ?thesis by (simp add: ex_idle_simps)
qed

end
